theory Spec2Isabelle
  imports Complex_Main
begin

section \<open>Scalars: IEEE-754 binary64\<close>

text \<open>
  The module \<^verbatim>\<open>vec2js\<close> declares \<^verbatim>\<open>type Scalar = number\<close>: a scalar is an IEEE-754
  binary64 value. A finite value is modelled by the real number it denotes, next to the
  two infinities and NaN. The two zeros are identified (\<open>Fin 0\<close> stands for \<open>+0\<close> and
  \<open>-0\<close>): the module compares with \<^verbatim>\<open>==\<close> only, which does not tell them apart,
  and the only divisors it uses (a length, a product of lengths, \<open>dot(b, b)\<close>) are sums
  of squares or their roots, which are never \<open>-0\<close>. A value \<open>Fin r\<close> is a binary64
  value when \<open>round64 r = Fin r\<close>; every operation below returns such values, and the
  statements quantified over reals hold in particular of those that are.
\<close>

datatype double = Fin real | PInf | NInf | NaN

text \<open>
  Rounding to nearest, ties to even. A real \<open>r\<close> is scaled by the unit in the last place
  of its binade (\<open>2 powi ulp_exp r\<close>; subnormals share the exponent \<open>-1074\<close>), the
  quotient is rounded to an integer, and a result of magnitude \<open>2 powi 1024\<close> or more is
  the infinity of its sign.
\<close>

definition round_half_even :: "real \<Rightarrow> int" where
  "round_half_even q =
     (let f = \<lfloor>q\<rfloor>
      in if q - of_int f < 1 / 2 then f
         else if 1 / 2 < q - of_int f then f + 1
         else if even f then f else f + 1)"

definition ulp_exp :: "real \<Rightarrow> int" where
  "ulp_exp r = max (- 1074) (\<lfloor>log 2 \<bar>r\<bar>\<rfloor> - 52)"

definition mant :: "real \<Rightarrow> int" where
  "mant r = round_half_even (\<bar>r\<bar> / 2 powi ulp_exp r)"

definition overflow :: "real \<Rightarrow> double" where
  "overflow v =
     (if 2 powi 1024 \<le> v then PInf
      else if v \<le> - (2 powi 1024) then NInf
      else Fin v)"

definition round64 :: "real \<Rightarrow> double" where
  "round64 r =
     (if r = 0 then Fin 0
      else overflow (sgn r * (of_int (mant r) * 2 powi ulp_exp r)))"

text \<open>
  The arithmetic of \<^verbatim>\<open>+\<close>, \<^verbatim>\<open>-\<close>, \<^verbatim>\<open>*\<close>, \<^verbatim>\<open>/\<close> and the comparisons
  \<^verbatim>\<open><=\<close>, \<^verbatim>\<open><\<close> on numbers: the exact result, rounded; the special values as
  IEEE-754 has them (a comparison with NaN is false).
\<close>

instantiation double :: "{uminus, plus, minus, times, inverse, ord}"
begin

fun uminus_double :: "double \<Rightarrow> double" where
  "uminus_double (Fin x) = Fin (- x)"
| "uminus_double PInf = NInf"
| "uminus_double NInf = PInf"
| "uminus_double NaN = NaN"

fun plus_double :: "double \<Rightarrow> double \<Rightarrow> double" where
  "plus_double (Fin x) (Fin y) = round64 (x + y)"
| "plus_double (Fin x) PInf = PInf"
| "plus_double (Fin x) NInf = NInf"
| "plus_double PInf (Fin y) = PInf"
| "plus_double PInf PInf = PInf"
| "plus_double PInf NInf = NaN"
| "plus_double NInf (Fin y) = NInf"
| "plus_double NInf PInf = NaN"
| "plus_double NInf NInf = NInf"
| "plus_double NaN b = NaN"
| "plus_double a NaN = NaN"

definition minus_double :: "double \<Rightarrow> double \<Rightarrow> double" where
  "minus_double a b = a + (- b)"

fun times_double :: "double \<Rightarrow> double \<Rightarrow> double" where
  "times_double (Fin x) (Fin y) = round64 (x * y)"
| "times_double (Fin x) PInf = (if x = 0 then NaN else if 0 < x then PInf else NInf)"
| "times_double (Fin x) NInf = (if x = 0 then NaN else if 0 < x then NInf else PInf)"
| "times_double PInf (Fin y) = (if y = 0 then NaN else if 0 < y then PInf else NInf)"
| "times_double NInf (Fin y) = (if y = 0 then NaN else if 0 < y then NInf else PInf)"
| "times_double PInf PInf = PInf"
| "times_double PInf NInf = NInf"
| "times_double NInf PInf = NInf"
| "times_double NInf NInf = PInf"
| "times_double NaN b = NaN"
| "times_double a NaN = NaN"

fun divide_double :: "double \<Rightarrow> double \<Rightarrow> double" where
  "divide_double (Fin x) (Fin y) =
     (if y = 0 then (if x = 0 then NaN else if 0 < x then PInf else NInf)
      else round64 (x / y))"
| "divide_double (Fin x) PInf = Fin 0"
| "divide_double (Fin x) NInf = Fin 0"
| "divide_double PInf (Fin y) = (if 0 \<le> y then PInf else NInf)"
| "divide_double NInf (Fin y) = (if 0 \<le> y then NInf else PInf)"
| "divide_double PInf PInf = NaN"
| "divide_double PInf NInf = NaN"
| "divide_double NInf PInf = NaN"
| "divide_double NInf NInf = NaN"
| "divide_double NaN b = NaN"
| "divide_double a NaN = NaN"

definition inverse_double :: "double \<Rightarrow> double" where
  "inverse_double a = divide (Fin 1) a"

fun less_eq_double :: "double \<Rightarrow> double \<Rightarrow> bool" where
  "less_eq_double (Fin x) (Fin y) = (x \<le> y)"
| "less_eq_double (Fin x) PInf = True"
| "less_eq_double (Fin x) NInf = False"
| "less_eq_double PInf (Fin y) = False"
| "less_eq_double PInf PInf = True"
| "less_eq_double PInf NInf = False"
| "less_eq_double NInf (Fin y) = True"
| "less_eq_double NInf PInf = True"
| "less_eq_double NInf NInf = True"
| "less_eq_double NaN b = False"
| "less_eq_double a NaN = False"

fun less_double :: "double \<Rightarrow> double \<Rightarrow> bool" where
  "less_double (Fin x) (Fin y) = (x < y)"
| "less_double (Fin x) PInf = True"
| "less_double (Fin x) NInf = False"
| "less_double PInf b = False"
| "less_double NInf (Fin y) = True"
| "less_double NInf PInf = True"
| "less_double NInf NInf = False"
| "less_double NInf NaN = False"
| "less_double NaN b = False"
| "less_double (Fin x) NaN = False"

instance ..

end

text \<open>
  \<^verbatim>\<open>Math.sqrt\<close> is correctly rounded. ECMAScript leaves the accuracy of
  \<^verbatim>\<open>Math.acos\<close>, \<^verbatim>\<open>Math.cos\<close> and \<^verbatim>\<open>Math.sin\<close> to the engine; the model takes the
  correctly rounded value. \<^verbatim>\<open>Math.acos\<close> is NaN outside \<open>[-1, 1]\<close>.
\<close>

definition Math_sqrt :: "double \<Rightarrow> double" where
  "Math_sqrt a =
     (case a of
        Fin x \<Rightarrow> if x < 0 then NaN else round64 (sqrt x)
      | PInf \<Rightarrow> PInf
      | NInf \<Rightarrow> NaN
      | NaN \<Rightarrow> NaN)"

definition Math_acos :: "double \<Rightarrow> double" where
  "Math_acos a =
     (case a of
        Fin x \<Rightarrow> if - 1 \<le> x \<and> x \<le> 1 then round64 (arccos x) else NaN
      | PInf \<Rightarrow> NaN
      | NInf \<Rightarrow> NaN
      | NaN \<Rightarrow> NaN)"

definition Math_cos :: "double \<Rightarrow> double" where
  "Math_cos a = (case a of Fin x \<Rightarrow> round64 (cos x) | PInf \<Rightarrow> NaN | NInf \<Rightarrow> NaN | NaN \<Rightarrow> NaN)"

definition Math_sin :: "double \<Rightarrow> double" where
  "Math_sin a = (case a of Fin x \<Rightarrow> round64 (sin x) | PInf \<Rightarrow> NaN | NInf \<Rightarrow> NaN | NaN \<Rightarrow> NaN)"

section \<open>Vectors and errors\<close>

text \<open>
  \<^verbatim>\<open>type Vec2 = [Scalar, Scalar]\<close>: a vector is a pair; \<^verbatim>\<open>a[0]\<close> is \<open>fst a\<close> and
  \<^verbatim>\<open>a[1]\<close> is \<open>snd a\<close>.
\<close>

type_synonym Scalar = double

type_synonym Vec2 = "Scalar \<times> Scalar"

text \<open>
  The only way an operation fails is a failed \<^verbatim>\<open>assert.notDeepEqual\<close>, which throws
  an \<^verbatim>\<open>AssertionError\<close> (the specification calls it InvalidArgument).
\<close>

datatype error = AssertionError

section \<open>The curried wrapper\<close>

text \<open>
  The module's \<^verbatim>\<open>curry\<close> is the default export of \<^verbatim>\<open>lodash.curryright\<close>. For
  a function of two parameters the wrapper it returns is called either with both
  arguments, which invokes the function at once, or with one argument, which is kept as
  a right partial: the next argument is placed in front of it before the function is
  invoked. The two shapes of the wrapper are the TypeScript declarations
  \<^verbatim>\<open>RightCurriedFunction2<T1, T2, R>\<close> (nothing bound yet) and
  \<^verbatim>\<open>RightCurriedFunction1<T1, R>\<close> (the right argument bound).
\<close>

datatype ('a, 'b, 'r) curried2 = Curried2 "'a \<Rightarrow> 'b \<Rightarrow> 'r"

datatype ('a, 'b, 'r) curried1 = Curried1 "'a \<Rightarrow> 'b \<Rightarrow> 'r" 'b

definition curryRight :: "('a \<Rightarrow> 'b \<Rightarrow> 'r) \<Rightarrow> ('a, 'b, 'r) curried2" where
  "curryRight func = Curried2 func"

text \<open>\<^verbatim>\<open>f(a, b)\<close>: both arguments at once.\<close>

fun call2 :: "('a, 'b, 'r) curried2 \<Rightarrow> 'a \<Rightarrow> 'b \<Rightarrow> 'r" where
  "call2 (Curried2 func) a b = func a b"

text \<open>\<^verbatim>\<open>f(x)\<close>: one argument, held as the right partial.\<close>

fun call1 :: "('a, 'b, 'r) curried2 \<Rightarrow> 'b \<Rightarrow> ('a, 'b, 'r) curried1" where
  "call1 (Curried2 func) x = Curried1 func x"

text \<open>\<^verbatim>\<open>g(y)\<close> for \<^verbatim>\<open>g = f(x)\<close>: the arguments of the call come before the partial.\<close>

fun call_rest :: "('a, 'b, 'r) curried1 \<Rightarrow> 'a \<Rightarrow> 'r" where
  "call_rest (Curried1 func x) y = func y x"

section \<open>The operations\<close>

definition zero :: "Vec2" where
  "zero = (Fin 0, Fin 0)"

definition negate :: "Vec2 \<Rightarrow> Vec2" where
  "negate a = (- fst a, - snd a)"

definition add :: "(Vec2, Vec2, Vec2) curried2" where
  "add = curryRight (\<lambda>a b. (fst a + fst b, snd a + snd b))"

definition sub :: "(Vec2, Vec2, Vec2) curried2" where
  "sub = curryRight (\<lambda>a b. (fst a - fst b, snd a - snd b))"

definition scale :: "(Vec2, Scalar, Vec2) curried2" where
  "scale = curryRight (\<lambda>a b. (fst a * b, snd a * b))"

definition dot :: "(Vec2, Vec2, Scalar) curried2" where
  "dot = curryRight (\<lambda>a b. fst a * fst b + snd a * snd b)"

definition length_vec :: "Vec2 \<Rightarrow> Scalar" where
  "length_vec a = Math_sqrt (call2 dot a a)"

definition magnitude :: "Vec2 \<Rightarrow> Scalar" where
  "magnitude = length_vec"

definition norm_vec :: "Vec2 \<Rightarrow> Scalar" where
  "norm_vec = length_vec"

text \<open>
  \<^verbatim>\<open>assert.notDeepEqual(a, [0, 0])\<close> compares the elements with \<^verbatim>\<open>==\<close> and throws
  exactly when both components of \<open>a\<close> are zero (of either sign). Nothing else guards
  the division: the length of a non-zero vector can itself be zero or infinite.
\<close>

definition unit :: "Vec2 \<Rightarrow> error + Vec2" where
  "unit a =
     (if a = (Fin 0, Fin 0) then Inl AssertionError
      else Inr (call2 scale a (Fin 1 / length_vec a)))"

definition normal :: "Vec2 \<Rightarrow> error + Vec2" where
  "normal a = unit (snd a, - fst a)"

definition distance :: "(Vec2, Vec2, Scalar) curried2" where
  "distance = curryRight (\<lambda>a b. length_vec (call2 sub a b))"

definition angle :: "(Vec2, Vec2, error + Scalar) curried2" where
  "angle = curryRight (\<lambda>a b.
     if a = (Fin 0, Fin 0) then Inl AssertionError
     else if b = (Fin 0, Fin 0) then Inl AssertionError
     else Inr (Math_acos (call2 dot a b / (length_vec a * length_vec b))))"

definition rotate_vec :: "(Vec2, Scalar, Vec2) curried2" where
  "rotate_vec = curryRight (\<lambda>a theta.
     let c = Math_cos theta; s = Math_sin theta
     in (fst a * c - snd a * s, fst a * s + snd a * c))"

definition project :: "(Vec2, Vec2, error + Vec2) curried2" where
  "project = curryRight (\<lambda>a b.
     if b = (Fin 0, Fin 0) then Inl AssertionError
     else Inr (call2 scale b (call2 dot a b / call2 dot b b)))"

definition fromPolar :: "Vec2 \<Rightarrow> Vec2" where
  "fromPolar p = (case p of (theta, len) \<Rightarrow> call2 rotate_vec (len, Fin 0) theta)"

text \<open>
  \<^verbatim>\<open>toPolar\<close> is the one export without a declared return type. Its body is
  \<^verbatim>\<open>[angle(a), length(a)]\<close>: \<open>angle\<close> is called with a single argument, so the
  first element of the array is the wrapper that still awaits an argument, and the array
  has the inferred element type "number or wrapper".
\<close>

datatype elem = Number Scalar | Function "(Vec2, Vec2, error + Scalar) curried1"

definition toPolar :: "Vec2 \<Rightarrow> elem list" where
  "toPolar a = [Function (call1 angle a), Number (length_vec a)]"

section \<open>Full applications of the exported operations\<close>

text \<open>
  One constructor for each export, applied to arguments of its declared parameter
  types, and the outcome of that call: a value was returned or an error was thrown.
\<close>

datatype invocation =
    Zero
  | FromPolar Vec2
  | ToPolar Vec2
  | Negate Vec2
  | Add Vec2 Vec2
  | Sub Vec2 Vec2
  | Scale Vec2 Scalar
  | Dot Vec2 Vec2
  | Length Vec2
  | Magnitude Vec2
  | Norm Vec2
  | Normal Vec2
  | Unit Vec2
  | Distance Vec2 Vec2
  | Angle Vec2 Vec2
  | Rotate Vec2 Scalar
  | Project Vec2 Vec2

datatype outcome = Returned | Thrown error

definition returned :: "'a \<Rightarrow> outcome" where
  "returned v = Returned"

fun may_throw :: "error + 'a \<Rightarrow> outcome" where
  "may_throw (Inl e) = Thrown e"
| "may_throw (Inr v) = Returned"

fun outcome_of :: "invocation \<Rightarrow> outcome" where
  "outcome_of Zero = returned zero"
| "outcome_of (FromPolar p) = returned (fromPolar p)"
| "outcome_of (ToPolar a) = returned (toPolar a)"
| "outcome_of (Negate a) = returned (negate a)"
| "outcome_of (Add a b) = returned (call2 add a b)"
| "outcome_of (Sub a b) = returned (call2 sub a b)"
| "outcome_of (Scale a b) = returned (call2 scale a b)"
| "outcome_of (Dot a b) = returned (call2 dot a b)"
| "outcome_of (Length a) = returned (length_vec a)"
| "outcome_of (Magnitude a) = returned (magnitude a)"
| "outcome_of (Norm a) = returned (norm_vec a)"
| "outcome_of (Normal a) = may_throw (normal a)"
| "outcome_of (Unit a) = may_throw (unit a)"
| "outcome_of (Distance a b) = returned (call2 distance a b)"
| "outcome_of (Angle a b) = may_throw (call2 angle a b)"
| "outcome_of (Rotate a theta) = returned (call2 rotate_vec a theta)"
| "outcome_of (Project a b) = may_throw (call2 project a b)"

section \<open>Rounding\<close>

section \<open>round_half_even\<close>

lemma rhe_of_int: "round_half_even (of_int n) = n"
  by (simp add: round_half_even_def)

lemma rhe_unique:
  assumes "of_int n - 1 / 2 < q" and "q < of_int n + 1 / 2"
  shows "round_half_even q = n"
proof -
  have "\<lfloor>q\<rfloor> = n" if "of_int n \<le> q"
    using that assms by (intro floor_unique) auto
  moreover have "\<lfloor>q\<rfloor> = n - 1" if "q < of_int n"
    using that assms by (intro floor_unique) auto
  ultimately consider "\<lfloor>q\<rfloor> = n" | "\<lfloor>q\<rfloor> = n - 1"
    by linarith
  then show ?thesis
  proof cases
    case 1
    then have "q - of_int \<lfloor>q\<rfloor> < 1 / 2" using assms by simp
    then show ?thesis using 1 by (simp add: round_half_even_def)
  next
    case 2
    then have "1 / 2 < q - of_int \<lfloor>q\<rfloor>" using assms by simp
    then show ?thesis using 2 by (simp add: round_half_even_def Let_def)
  qed
qed

lemma rhe_error: "\<bar>of_int (round_half_even q) - q\<bar> \<le> 1 / 2"
proof -
  have "of_int \<lfloor>q\<rfloor> \<le> q" "q < of_int \<lfloor>q\<rfloor> + 1"
    by linarith+
  then show ?thesis
    by (auto simp add: round_half_even_def Let_def)
qed

lemma rhe_mono:
  assumes "q \<le> q'"
  shows "round_half_even q \<le> round_half_even q'"
proof (cases "\<lfloor>q\<rfloor> = \<lfloor>q'\<rfloor>")
  case True
  then show ?thesis
    using assms by (auto simp add: round_half_even_def Let_def)
next
  case False
  then have "\<lfloor>q\<rfloor> + 1 \<le> \<lfloor>q'\<rfloor>"
    using assms floor_mono [of q q'] by linarith
  moreover have "round_half_even q \<le> \<lfloor>q\<rfloor> + 1"
    by (auto simp add: round_half_even_def Let_def)
  moreover have "\<lfloor>q'\<rfloor> \<le> round_half_even q'"
    by (auto simp add: round_half_even_def Let_def)
  ultimately show ?thesis by linarith
qed

lemma rhe_le: "q \<le> of_int n \<Longrightarrow> round_half_even q \<le> n"
  using rhe_mono [of q "of_int n"] by (simp add: rhe_of_int)

lemma rhe_ge: "of_int n \<le> q \<Longrightarrow> n \<le> round_half_even q"
  using rhe_mono [of "of_int n" q] by (simp add: rhe_of_int)

lemma rhe_zero_iff:
  assumes "0 \<le> q"
  shows "round_half_even q = 0 \<longleftrightarrow> q \<le> 1 / 2"
proof
  assume "round_half_even q = 0"
  then show "q \<le> 1 / 2" using rhe_error [of q] by simp
next
  assume le: "q \<le> 1 / 2"
  then have "\<lfloor>q\<rfloor> = 0" using assms by (intro floor_unique) auto
  then show "round_half_even q = 0"
    using le by (auto simp add: round_half_even_def)
qed

lemma log2_floor_bounds:
  assumes "0 < x"
  shows "2 powi \<lfloor>log 2 x\<rfloor> \<le> x" and "x < 2 powi (\<lfloor>log 2 x\<rfloor> + 1)"
proof -
  have "2 powr of_int \<lfloor>log 2 x\<rfloor> \<le> x \<and> x < 2 powr (of_int \<lfloor>log 2 x\<rfloor> + 1)"
    using floor_log_eq_powr_iff [of x 2 "\<lfloor>log 2 x\<rfloor>"] assms by simp
  moreover have "(2::real) powr of_int \<lfloor>log 2 x\<rfloor> = 2 powi \<lfloor>log 2 x\<rfloor>"
    by (simp add: powr_real_of_int')
  moreover have "(2::real) powr (of_int \<lfloor>log 2 x\<rfloor> + 1) = 2 powi (\<lfloor>log 2 x\<rfloor> + 1)"
    using powr_real_of_int' [of 2 "\<lfloor>log 2 x\<rfloor> + 1"] by simp
  ultimately show "2 powi \<lfloor>log 2 x\<rfloor> \<le> x" and "x < 2 powi (\<lfloor>log 2 x\<rfloor> + 1)"
    by simp_all
qed

lemma log2_floor_eq:
  assumes "2 powi k \<le> x" and "x < 2 powi (k + 1)"
  shows "\<lfloor>log 2 x\<rfloor> = k"
proof -
  have pos: "0 < x"
    using assms(1) zero_less_power_int [of "2::real" k] by linarith
  have "(2::real) powr of_int k = 2 powi k"
    by (simp add: powr_real_of_int')
  moreover have "(2::real) powr (of_int k + 1) = 2 powi (k + 1)"
    using powr_real_of_int' [of 2 "k + 1"] by simp
  ultimately show ?thesis
    using floor_log_eq_powr_iff [of x 2 k] pos assms by simp
qed

lemma ulp_exp_ge: "- 1074 \<le> ulp_exp r"
  by (simp add: ulp_exp_def)

lemma ulp_exp_upper:
  assumes "r \<noteq> 0"
  shows "\<bar>r\<bar> < 2 powi (ulp_exp r + 53)"
proof -
  have "\<bar>r\<bar> < 2 powi (\<lfloor>log 2 \<bar>r\<bar>\<rfloor> + 1)"
    using assms by (intro log2_floor_bounds) simp
  also have "\<dots> \<le> 2 powi (ulp_exp r + 53)"
    by (intro power_int_increasing) (simp_all add: ulp_exp_def)
  finally show ?thesis .
qed

lemma ulp_exp_lower:
  assumes "r \<noteq> 0" and "- 1074 < ulp_exp r"
  shows "2 powi (ulp_exp r + 52) \<le> \<bar>r\<bar>"
proof -
  have "ulp_exp r + 52 = \<lfloor>log 2 \<bar>r\<bar>\<rfloor>"
    using assms(2) by (simp add: ulp_exp_def max_def split: if_splits)
  then show ?thesis
    using log2_floor_bounds(1) [of "\<bar>r\<bar>"] assms(1) by simp
qed

lemma ulp_exp_eq:
  assumes "2 powi k \<le> \<bar>r\<bar>" and "\<bar>r\<bar> < 2 powi (k + 1)"
  shows "ulp_exp r = max (- 1074) (k - 52)"
  using log2_floor_eq [OF assms] by (simp add: ulp_exp_def)

lemma ulp_exp_subnormal:
  assumes "r \<noteq> 0" and "\<bar>r\<bar> < 2 powi (- 1022)"
  shows "ulp_exp r = - 1074"
proof (rule ccontr)
  assume "ulp_exp r \<noteq> - 1074"
  then have gt: "- 1074 < ulp_exp r"
    using ulp_exp_ge [of r] by linarith
  have "(2::real) powi (- 1022) \<le> 2 powi (ulp_exp r + 52)"
    using gt by (intro power_int_increasing) simp_all
  also have "\<dots> \<le> \<bar>r\<bar>"
    using ulp_exp_lower [OF assms(1) gt] .
  finally show False using assms(2) by linarith
qed

lemma ulp_exp_minus [simp]: "ulp_exp (- r) = ulp_exp r"
  by (simp add: ulp_exp_def)

lemma round64_mant:
  "r \<noteq> 0 \<Longrightarrow> round64 r = overflow (sgn r * (of_int (mant r) * 2 powi ulp_exp r))"
  by (simp add: round64_def mant_def)

lemma mant_nonneg: "0 \<le> mant r"
  unfolding mant_def by (intro rhe_ge) simp

lemma mant_upper:
  assumes "r \<noteq> 0"
  shows "mant r \<le> 2 ^ 53"
proof -
  have "\<bar>r\<bar> / 2 powi ulp_exp r < 2 powi (ulp_exp r + 53) / 2 powi ulp_exp r"
    using ulp_exp_upper [OF assms] by (simp add: divide_strict_right_mono)
  also have "\<dots> = 2 ^ 53"
    by (simp add: power_int_add)
  finally have "\<bar>r\<bar> / 2 powi ulp_exp r \<le> of_int (2 ^ 53)"
    by simp
  then show ?thesis
    unfolding mant_def by (rule rhe_le)
qed

lemma mant_lower:
  assumes "r \<noteq> 0" and "- 1074 < ulp_exp r"
  shows "2 ^ 52 \<le> mant r"
proof -
  have "2 powi (ulp_exp r + 52) / 2 powi ulp_exp r \<le> \<bar>r\<bar> / 2 powi ulp_exp r"
    using ulp_exp_lower [OF assms] by (simp add: divide_right_mono)
  moreover have "2 powi (ulp_exp r + 52) / 2 powi ulp_exp r = (2 ^ 52 :: real)"
    by (simp add: power_int_add)
  ultimately have "of_int (2 ^ 52) \<le> \<bar>r\<bar> / 2 powi ulp_exp r"
    by simp
  then show ?thesis
    unfolding mant_def by (rule rhe_ge)
qed

lemma mant_error: "\<bar>of_int (mant r) * 2 powi ulp_exp r - \<bar>r\<bar>\<bar> \<le> 2 powi ulp_exp r / 2"
proof -
  have "\<bar>of_int (mant r) - \<bar>r\<bar> / 2 powi ulp_exp r\<bar> * 2 powi ulp_exp r \<le> 1 / 2 * 2 powi ulp_exp r"
    unfolding mant_def by (intro mult_right_mono rhe_error) simp
  moreover have "\<bar>of_int (mant r) - \<bar>r\<bar> / 2 powi ulp_exp r\<bar> * 2 powi ulp_exp r
      = \<bar>of_int (mant r) * 2 powi ulp_exp r - \<bar>r\<bar>\<bar>"
  proof -
    have pos: "(0::real) < 2 powi ulp_exp r" by simp
    have "\<bar>of_int (mant r) - \<bar>r\<bar> / 2 powi ulp_exp r\<bar> * 2 powi ulp_exp r
        = \<bar>(of_int (mant r) - \<bar>r\<bar> / 2 powi ulp_exp r) * 2 powi ulp_exp r\<bar>"
      using pos by (simp only: abs_mult abs_of_pos)
    also have "(of_int (mant r) - \<bar>r\<bar> / 2 powi ulp_exp r) * 2 powi ulp_exp r
        = of_int (mant r) * 2 powi ulp_exp r - \<bar>r\<bar>"
      using pos by (simp add: left_diff_distrib)
    finally show ?thesis .
  qed
  ultimately show ?thesis by simp
qed

lemma overflow_Fin: "\<bar>v\<bar> < 2 powi 1024 \<Longrightarrow> overflow v = Fin v"
  by (auto simp add: overflow_def)

lemma round64_pos:
  "0 < r \<Longrightarrow> round64 r = overflow (of_int (mant r) * 2 powi ulp_exp r)"
  by (simp add: round64_mant)

lemma mant_minus [simp]: "mant (- r) = mant r"
  by (simp add: mant_def)

lemma round64_neg:
  "r < 0 \<Longrightarrow> round64 r = overflow (- (of_int (mant r) * 2 powi ulp_exp r))"
  by (simp add: round64_mant)

lemma ulp_exp_le:
  assumes "r \<noteq> 0" and "\<bar>r\<bar> < 2 powi (e + 53)" and "- 1074 \<le> e"
  shows "ulp_exp r \<le> e"
proof (rule ccontr)
  assume "\<not> ulp_exp r \<le> e"
  then have gt: "e < ulp_exp r" by simp
  with assms(3) have "- 1074 < ulp_exp r" by simp
  from ulp_exp_lower [OF assms(1) this] have "2 powi (ulp_exp r + 52) \<le> \<bar>r\<bar>" .
  moreover have "(2::real) powi (e + 53) \<le> 2 powi (ulp_exp r + 52)"
    using gt by (intro power_int_increasing) simp_all
  ultimately show False using assms(2) by linarith
qed

lemma round64_exact:
  assumes "\<bar>m\<bar> < 2 ^ 53" and "- 1074 \<le> e" and "\<bar>of_int m * 2 powi e :: real\<bar> < 2 powi 1024"
  shows "round64 (of_int m * 2 powi e) = Fin (of_int m * 2 powi e)"
proof (cases "m = 0")
  case True
  then show ?thesis by (simp add: round64_def)
next
  case False
  define r :: real where "r = of_int m * 2 powi e"
  have r0: "r \<noteq> 0" using False by (simp add: r_def)
  have abs_r: "\<bar>r\<bar> = of_int \<bar>m\<bar> * 2 powi e"
    by (simp add: r_def abs_mult)
  also have "\<dots> < of_int (2 ^ 53) * 2 powi e"
    using assms(1) by (intro mult_strict_right_mono) (simp_all del: of_int_power)
  also have "\<dots> = 2 powi (e + 53)"
    by (simp add: power_int_add)
  finally have "\<bar>r\<bar> < 2 powi (e + 53)" .
  from ulp_exp_le [OF r0 this assms(2)] have le: "ulp_exp r \<le> e" .
  define d where "d = nat (e - ulp_exp r)"
  have e_eq: "e = ulp_exp r + int d"
    using le by (simp add: d_def)
  have "(2::real) powi e = 2 powi ulp_exp r * 2 ^ d"
    by (subst e_eq) (simp add: power_int_add)
  then have q: "\<bar>r\<bar> / 2 powi ulp_exp r = of_int (\<bar>m\<bar> * 2 ^ d)"
    by (simp add: abs_r)
  have mant: "mant r = \<bar>m\<bar> * 2 ^ d"
    unfolding mant_def q by (rule rhe_of_int)
  have val: "sgn r * (of_int (mant r) * 2 powi ulp_exp r) = r"
  proof -
    have "of_int (mant r) * 2 powi ulp_exp r = \<bar>r\<bar>"
      using q mant by (simp add: field_simps)
    then show ?thesis by (simp add: sgn_mult_abs)
  qed
  have "\<bar>r\<bar> < 2 powi 1024"
    using assms(3) by (simp only: r_def)
  then have "round64 r = Fin r"
    using round64_mant [OF r0] overflow_Fin [of r] by (simp only: val)
  then show ?thesis
    by (simp only: r_def)
qed

lemma round64_zero_iff: "round64 r = Fin 0 \<longleftrightarrow> \<bar>r\<bar> \<le> 2 powi (- 1075)"
proof (cases "r = 0")
  case True
  then show ?thesis by (simp add: round64_def)
next
  case r0: False
  show ?thesis
  proof
    assume small: "\<bar>r\<bar> \<le> 2 powi (- 1075)"
    have "(2::real) powi (- 1075) < 2 powi (- 1022)"
      by (intro power_int_strict_increasing) simp_all
    with small have "\<bar>r\<bar> < 2 powi (- 1022)" by linarith
    from ulp_exp_subnormal [OF r0 this] have u: "ulp_exp r = - 1074" .
    have "\<bar>r\<bar> / 2 powi (- 1074) \<le> 2 powi (- 1075) / 2 powi (- 1074)"
      using small by (intro divide_right_mono) simp_all
    also have "2 powi (- 1075) / 2 powi (- 1074) = (1 / 2 :: real)"
      by (simp add: power_int_diff [symmetric])
    finally have "mant r = 0"
      unfolding mant_def u by (subst rhe_zero_iff) simp_all
    then show "round64 r = Fin 0"
      using r0 by (simp add: round64_mant overflow_Fin)
  next
    assume z: "round64 r = Fin 0"
    have "overflow (sgn r * (of_int (mant r) * 2 powi ulp_exp r)) = Fin 0"
      using z r0 by (simp add: round64_mant)
    then have "sgn r * (of_int (mant r) * 2 powi ulp_exp r) = 0"
      by (auto simp add: overflow_def split: if_splits)
    then have m0: "mant r = 0"
      using r0 by (simp add: sgn_eq_0_iff)
    have u: "ulp_exp r = - 1074"
    proof (rule ccontr)
      assume "ulp_exp r \<noteq> - 1074"
      then have "- 1074 < ulp_exp r" using ulp_exp_ge [of r] by linarith
      from mant_lower [OF r0 this] m0 show False by simp
    qed
    have "\<bar>r\<bar> / 2 powi (- 1074) \<le> 1 / 2"
      using m0 unfolding mant_def u by (subst (asm) rhe_zero_iff) simp_all
    then have "\<bar>r\<bar> \<le> 1 / 2 * 2 powi (- 1074)"
      by (simp add: pos_divide_le_eq)
    also have "1 / 2 * 2 powi (- 1074) = (2 powi (- 1075) :: real)"
      by (simp add: power_int_diff [symmetric] power_int_minus field_simps)
    finally show "\<bar>r\<bar> \<le> 2 powi (- 1075)" .
  qed
qed

lemma mant_ge_1_if:
  assumes "2 powi (- 1075) < \<bar>r\<bar>"
  shows "1 \<le> mant r"
proof -
  have r0: "r \<noteq> 0"
    using assms zero_less_power_int [of "2::real" "- 1075"] by auto
  show ?thesis
  proof (cases "ulp_exp r = - 1074")
    case True
    have "mant r \<noteq> 0"
    proof
      assume "mant r = 0"
      then have "\<bar>r\<bar> / 2 powi (- 1074) \<le> 1 / 2"
        unfolding mant_def True by (subst (asm) rhe_zero_iff) simp_all
      then have "\<bar>r\<bar> \<le> 1 / 2 * 2 powi (- 1074)"
        by (simp add: pos_divide_le_eq)
      also have "1 / 2 * 2 powi (- 1074) = (2 powi (- 1075) :: real)"
        by (simp add: power_int_diff [symmetric] power_int_minus field_simps)
      finally show False using assms by simp
    qed
    then show ?thesis using mant_nonneg [of r] by linarith
  next
    case False
    then have "- 1074 < ulp_exp r" using ulp_exp_ge [of r] by linarith
    from mant_lower [OF r0 this] show ?thesis by simp
  qed
qed

lemma round64_value_bounds:
  assumes "r \<noteq> 0"
  shows "\<bar>of_int (mant r) * 2 powi ulp_exp r - \<bar>r\<bar>\<bar> \<le> 2 powi (- 53) * \<bar>r\<bar> + 2 powi (- 1075)"
proof (cases "ulp_exp r = - 1074")
  case True
  have "(2 powi (- 1074) / 2 :: real) = 2 powi (- 1075)"
    by (simp add: power_int_diff [symmetric] power_int_minus field_simps)
  then have "\<bar>of_int (mant r) * 2 powi ulp_exp r - \<bar>r\<bar>\<bar> \<le> 2 powi (- 1075)"
    using mant_error [of r] by (simp only: True)
  moreover have "0 \<le> 2 powi (- 53) * \<bar>r\<bar>" by simp
  ultimately show ?thesis by linarith
next
  case False
  then have gt: "- 1074 < ulp_exp r" using ulp_exp_ge [of r] by linarith
  have "(2 powi ulp_exp r / 2 :: real) = 2 powi (- 53) * 2 powi (ulp_exp r + 52)"
    by (simp add: power_int_add power_int_minus field_simps)
  also have "\<dots> \<le> 2 powi (- 53) * \<bar>r\<bar>"
    using ulp_exp_lower [OF assms gt] by (intro mult_left_mono) simp_all
  finally have "\<bar>of_int (mant r) * 2 powi ulp_exp r - \<bar>r\<bar>\<bar> \<le> 2 powi (- 53) * \<bar>r\<bar>"
    using mant_error [of r] by linarith
  moreover have "(0::real) \<le> 2 powi (- 1075)" by simp
  ultimately show ?thesis by linarith
qed

lemma round64_magnitude_lt:
  assumes "r \<noteq> 0" and "\<bar>r\<bar> < 2 powi 1024 - 2 powi 970"
  shows "of_int (mant r) * 2 powi ulp_exp r < (2 powi 1024 :: real)"
proof (cases "ulp_exp r \<le> 970")
  case True
  have "of_int (mant r) * 2 powi ulp_exp r \<le> (of_int (2 ^ 53) :: real) * 2 powi 970"
    using mant_upper [OF assms(1)] True mant_nonneg [of r]
    by (intro mult_mono power_int_increasing) (simp_all del: of_int_power)
  also have "\<dots> < 2 powi 1024" by simp
  finally show ?thesis .
next
  case False
  then have gt: "- 1074 < ulp_exp r" by simp
  have "ulp_exp r \<le> 971"
  proof (rule ulp_exp_le [OF assms(1)])
    have "(2 powi 1024 - 2 powi 970 :: real) < 2 powi (971 + 53)" by simp
    with assms(2) show "\<bar>r\<bar> < 2 powi (971 + 53)" by linarith
  qed simp
  with False have u: "ulp_exp r = 971" by simp
  have "of_int (mant r) * 2 powi ulp_exp r \<le> \<bar>r\<bar> + 2 powi 971 / 2"
    using mant_error [of r] unfolding u by linarith
  also have "\<dots> < 2 powi 1024"
    using assms(2) by simp
  finally show ?thesis .
qed

text \<open>A real below the overflow threshold rounds to a finite double, with the usual error.\<close>

lemma round64_finite:
  assumes "\<bar>r\<bar> < 2 powi 1024 - 2 powi 970"
  obtains v where "round64 r = Fin v"
    and "\<bar>v - r\<bar> \<le> 2 powi (- 53) * \<bar>r\<bar> + 2 powi (- 1075)"
    and "0 \<le> r \<Longrightarrow> 0 \<le> v" and "r \<le> 0 \<Longrightarrow> v \<le> 0"
proof (cases "r = 0")
  case True
  show ?thesis
    by (rule that [of 0]) (simp_all add: True round64_def)
next
  case r0: False
  define w :: real where "w = of_int (mant r) * 2 powi ulp_exp r"
  have w0: "0 \<le> w"
    using mant_nonneg [of r] by (simp add: w_def)
  have wlt: "w < 2 powi 1024"
    unfolding w_def by (rule round64_magnitude_lt [OF r0 assms])
  have werr: "\<bar>w - \<bar>r\<bar>\<bar> \<le> 2 powi (- 53) * \<bar>r\<bar> + 2 powi (- 1075)"
    unfolding w_def by (rule round64_value_bounds [OF r0])
  have "round64 r = overflow (sgn r * w)"
    using r0 by (simp add: round64_mant w_def)
  moreover have "\<bar>sgn r * w\<bar> < 2 powi 1024"
    using w0 wlt r0 by (simp add: abs_mult abs_sgn_eq)
  ultimately have eq: "round64 r = Fin (sgn r * w)"
    by (simp only: overflow_Fin)
  have "\<bar>sgn r * w - r\<bar> = \<bar>w - \<bar>r\<bar>\<bar>"
    using r0 by (cases "0 < r") (simp_all add: abs_minus_commute)
  with werr have err: "\<bar>sgn r * w - r\<bar> \<le> 2 powi (- 53) * \<bar>r\<bar> + 2 powi (- 1075)"
    by simp
  show ?thesis
    using w0 r0 by (intro that [OF eq err]) (auto simp add: sgn_if)
qed

lemma round64_overflow:
  assumes "2 powi 1024 - 2 powi 970 \<le> r"
  shows "round64 r = PInf"
proof -
  have rpos: "0 < r"
    using assms by simp
  have "(2 powi 1024 :: real) \<le> of_int (mant r) * 2 powi ulp_exp r"
  proof (cases "r < 2 powi 1024")
    case True
    have "2 powi 1023 \<le> \<bar>r\<bar>" "\<bar>r\<bar> < 2 powi (1023 + 1)"
      using assms True by simp_all
    from ulp_exp_eq [OF this] have u: "ulp_exp r = 971" by simp
    have q: "of_int (2 ^ 53 - 1) + 1 / 2 \<le> \<bar>r\<bar> / 2 powi 971"
      using assms rpos by (simp add: pos_le_divide_eq)
    have "2 ^ 53 - 1 \<le> mant r"
      unfolding mant_def u using q by (intro rhe_ge) linarith
    moreover have "mant r \<noteq> 2 ^ 53 - 1"
    proof
      assume m: "mant r = 2 ^ 53 - 1"
      have "\<bar>of_int (mant r) - \<bar>r\<bar> / 2 powi 971\<bar> \<le> 1 / 2"
        using rhe_error [of "\<bar>r\<bar> / 2 powi 971"] unfolding mant_def u .
      with q m have qeq: "\<bar>r\<bar> / 2 powi 971 = of_int (2 ^ 53 - 1) + 1 / 2"
        by linarith
      have fl: "\<lfloor>\<bar>r\<bar> / 2 powi 971\<rfloor> = 2 ^ 53 - 1"
        unfolding qeq by (intro floor_unique) simp_all
      have "round_half_even (\<bar>r\<bar> / 2 powi 971) = 2 ^ 53 - 1 + 1"
        unfolding round_half_even_def fl Let_def using qeq by simp
      with m show False by (simp add: mant_def u)
    qed
    ultimately have "2 ^ 53 \<le> mant r" by linarith
    then have "(of_int (2 ^ 53) :: real) \<le> of_int (mant r)"
      by (simp only: of_int_le_iff)
    then have "(of_int (2 ^ 53) :: real) * 2 powi 971 \<le> of_int (mant r) * 2 powi 971"
      by (intro mult_right_mono) simp_all
    then show ?thesis by (simp add: u)
  next
    case False
    have r0: "r \<noteq> 0" using rpos by simp
    have "972 \<le> ulp_exp r"
    proof (rule ccontr)
      assume "\<not> 972 \<le> ulp_exp r"
      then have "ulp_exp r + 53 \<le> 1024" by simp
      then have "(2::real) powi (ulp_exp r + 53) \<le> 2 powi 1024"
        by (intro power_int_increasing) simp_all
      with ulp_exp_upper [OF r0] False rpos show False by simp
    qed
    then have gt: "- 1074 < ulp_exp r" by simp
    have "(2 powi 1024 :: real) = of_int (2 ^ 52) * 2 powi 972"
      by simp
    also have "\<dots> \<le> of_int (mant r) * 2 powi ulp_exp r"
      using mant_lower [OF r0 gt] \<open>972 \<le> ulp_exp r\<close>
      by (intro mult_mono power_int_increasing) (simp_all del: of_int_power)
    finally show ?thesis .
  qed
  then show ?thesis
    using rpos by (simp add: round64_pos overflow_def)
qed

lemma round64_nearest:
  assumes "2 powi (e + 52) \<le> r" and "r < 2 powi (e + 53)" and "- 1074 \<le> e"
    and "of_int n - 1 / 2 < r / 2 powi e" and "r / 2 powi e < of_int n + 1 / 2"
    and "of_int n * 2 powi e < (2 powi 1024 :: real)"
  shows "round64 r = Fin (of_int n * 2 powi e)"
proof -
  have rpos: "0 < r"
    using assms(1) zero_less_power_int [of "2::real" "e + 52"] by linarith
  have "2 powi (e + 52) \<le> \<bar>r\<bar>" "\<bar>r\<bar> < 2 powi (e + 52 + 1)"
    using assms(1,2) rpos by (simp_all add: add.commute add.left_commute)
  from ulp_exp_eq [OF this] assms(3) have u: "ulp_exp r = e" by simp
  have m: "mant r = n"
    unfolding mant_def u using assms(4,5) rpos by (intro rhe_unique) simp_all
  have "0 \<le> n"
    using mant_nonneg [of r] m by simp
  then have "\<bar>of_int n * 2 powi e :: real\<bar> < 2 powi 1024"
    using assms(6) by (simp add: abs_mult)
  then show ?thesis
    using rpos by (simp only: round64_pos u m overflow_Fin)
qed

lemma round64_subnormal:
  assumes "0 < r" and "r < 2 powi (- 1022)"
    and "of_int n - 1 / 2 < r / 2 powi (- 1074)" and "r / 2 powi (- 1074) < of_int n + 1 / 2"
  shows "round64 r = Fin (of_int n * 2 powi (- 1074))"
proof -
  have u: "ulp_exp r = - 1074"
    using assms(1,2) by (intro ulp_exp_subnormal) simp_all
  have m: "mant r = n"
    unfolding mant_def u using assms by (intro rhe_unique) simp_all
  have le: "n \<le> 2 ^ 53"
    using mant_upper [of r] assms(1) m by simp
  have "0 \<le> n"
    using mant_nonneg [of r] m by simp
  have "(of_int n :: real) * 2 powi (- 1074) \<le> of_int (2 ^ 53) * 2 powi (- 1074)"
    using le by (intro mult_right_mono) (simp_all del: of_int_power)
  also have "\<dots> < 2 powi 1024" by simp
  finally have "\<bar>of_int n * 2 powi (- 1074) :: real\<bar> < 2 powi 1024"
    using \<open>0 \<le> n\<close> by (simp add: abs_mult)
  then show ?thesis
    using assms(1) by (simp only: round64_pos u m overflow_Fin)
qed

lemma round64_of_int: "\<bar>m\<bar> < 2 ^ 53 \<Longrightarrow> round64 (of_int m) = Fin (of_int m)"
  using round64_exact [of m 0] by simp

lemma round64_0 [simp]: "round64 0 = Fin 0"
  by (simp add: round64_def)

lemma round64_1 [simp]: "round64 1 = Fin 1"
  using round64_of_int [of 1] by simp

lemma round64_numeral [simp]:
  "numeral k < (2 ^ 53 :: int) \<Longrightarrow> round64 (numeral k) = Fin (numeral k)"
  using round64_of_int [of "numeral k"] by simp

lemma round64_minus: "round64 (- r) = - round64 r"
proof (cases "r = 0")
  case True
  then show ?thesis by simp
next
  case False
  have "overflow (- v) = - overflow v" for v
    by (auto simp add: overflow_def)
  then show ?thesis
    using False by (simp add: round64_mant sgn_minus)
qed

lemma round64_neg_numeral [simp]:
  "numeral k < (2 ^ 53 :: int) \<Longrightarrow> round64 (- numeral k) = Fin (- numeral k)"
  by (simp add: round64_minus)

lemma round64_neg_1 [simp]: "round64 (- 1) = Fin (- 1)"
  by (simp add: round64_minus)

lemma round64_pow2:
  assumes "- 1074 \<le> k" and "k < 1024"
  shows "round64 (2 powi k) = Fin (2 powi k)"
proof -
  have "(2::real) powi k < 2 powi 1024"
    using assms(2) by (intro power_int_strict_increasing) simp_all
  then show ?thesis
    using round64_exact [of 1 k] assms(1) by simp
qed

lemma round64_half [simp]: "round64 (1 / 2) = Fin (1 / 2)"
  using round64_pow2 [of "- 1"] by (simp add: power_int_minus field_simps)

lemma round64_neg_half [simp]: "round64 (- (1 / 2)) = Fin (- (1 / 2))"
  by (simp only: round64_minus round64_half uminus_double.simps)

lemma overflow_nonneg_cases:
  assumes "0 \<le> w"
  shows "overflow w = PInf \<or> overflow w = Fin w"
  using assms by (auto simp add: overflow_def)

lemma overflow_mono:
  assumes "w \<le> w'"
  shows "overflow w \<le> overflow w'"
  using assms by (auto simp add: overflow_def)

text \<open>What is not rounded to zero is at least the smallest subnormal.\<close>

lemma round64_pos_cases:
  assumes "2 powi (- 1075) < r"
  shows "round64 r = PInf \<or> (\<exists>v. round64 r = Fin v \<and> 2 powi (- 1074) \<le> v)"
proof -
  have rpos: "0 < r"
    using assms zero_less_power_int [of "2::real" "- 1075"] by linarith
  define w :: real where "w = of_int (mant r) * 2 powi ulp_exp r"
  have "1 \<le> mant r"
    using assms rpos by (intro mant_ge_1_if) simp
  then have "(1::real) \<le> of_int (mant r)"
    by simp
  moreover have "(2::real) powi (- 1074) \<le> 2 powi ulp_exp r"
    using ulp_exp_ge [of r] by (intro power_int_increasing) simp_all
  ultimately have "1 * 2 powi (- 1074) \<le> w"
    unfolding w_def by (intro mult_mono) simp_all
  then have w: "2 powi (- 1074) \<le> w" by simp
  then have "0 \<le> w"
    using zero_less_power_int [of "2::real" "- 1074"] by linarith
  from overflow_nonneg_cases [OF this] w show ?thesis
    using rpos by (auto simp add: round64_pos w_def)
qed

lemma round64_nonneg_cases:
  assumes "0 \<le> r"
  shows "round64 r = PInf \<or> (\<exists>v. round64 r = Fin v \<and> 0 \<le> v)"
proof (cases "r = 0")
  case True
  then show ?thesis by simp
next
  case False
  with assms have rpos: "0 < r" by simp
  have "(0::real) \<le> of_int (mant r) * 2 powi ulp_exp r"
    using mant_nonneg [of r] by simp
  from overflow_nonneg_cases [OF this] this show ?thesis
    using rpos by (auto simp add: round64_pos)
qed

lemma ulp_exp_mono:
  assumes "0 < r" and "r \<le> r'"
  shows "ulp_exp r \<le> ulp_exp r'"
proof -
  have "log 2 r \<le> log 2 r'"
    using assms by simp
  then have "\<lfloor>log 2 r\<rfloor> \<le> \<lfloor>log 2 r'\<rfloor>"
    by (rule floor_mono)
  then show ?thesis
    using assms by (simp add: ulp_exp_def)
qed

lemma round64_mono_pos:
  assumes "0 < r" and "r \<le> r'"
  shows "round64 r \<le> round64 r'"
proof -
  have r'pos: "0 < r'" using assms by linarith
  have le: "ulp_exp r \<le> ulp_exp r'"
    by (rule ulp_exp_mono [OF assms])
  have "of_int (mant r) * 2 powi ulp_exp r \<le> (of_int (mant r') * 2 powi ulp_exp r' :: real)"
  proof (cases "ulp_exp r = ulp_exp r'")
    case True
    have "\<bar>r\<bar> / 2 powi ulp_exp r' \<le> \<bar>r'\<bar> / 2 powi ulp_exp r'"
      using assms by (intro divide_right_mono) simp_all
    then have "mant r \<le> mant r'"
      unfolding mant_def True by (rule rhe_mono)
    then show ?thesis
      unfolding True by (intro mult_right_mono) simp_all
  next
    case False
    with le have lt: "ulp_exp r < ulp_exp r'" by simp
    then have gt: "- 1074 < ulp_exp r'"
      using ulp_exp_ge [of r] by linarith
    have "of_int (mant r) * 2 powi ulp_exp r \<le> (of_int (2 ^ 53) :: real) * 2 powi ulp_exp r"
      using mant_upper [of r] assms(1)
      by (intro mult_right_mono) (simp_all del: of_int_power)
    also have "\<dots> = 2 powi (ulp_exp r + 53)"
      by (simp add: power_int_add)
    also have "\<dots> \<le> 2 powi (ulp_exp r' + 52)"
      using lt by (intro power_int_increasing) simp_all
    also have "\<dots> = (of_int (2 ^ 52) :: real) * 2 powi ulp_exp r'"
      by (simp add: power_int_add)
    also have "\<dots> \<le> of_int (mant r') * 2 powi ulp_exp r'"
      using mant_lower [of r'] r'pos gt
      by (intro mult_right_mono) (simp_all del: of_int_power)
    finally show ?thesis .
  qed
  then show ?thesis
    using assms(1) r'pos by (simp only: round64_pos overflow_mono)
qed

lemma round64_mono_nonneg:
  assumes "0 \<le> r" and "r \<le> r'"
  shows "round64 r \<le> round64 r'"
proof (cases "r = 0")
  case True
  from round64_nonneg_cases [of r'] assms True show ?thesis
    by auto
next
  case False
  with assms show ?thesis
    by (intro round64_mono_pos) simp_all
qed

section \<open>Evaluation rules\<close>

lemma add_apply: "call2 add a b = (fst a + fst b, snd a + snd b)"
  by (simp add: add_def curryRight_def)

lemma sub_apply: "call2 sub a b = (fst a - fst b, snd a - snd b)"
  by (simp add: sub_def curryRight_def)

lemma scale_apply: "call2 scale a b = (fst a * b, snd a * b)"
  by (simp add: scale_def curryRight_def)

lemma dot_apply: "call2 dot a b = fst a * fst b + snd a * snd b"
  by (simp add: dot_def curryRight_def)

lemma distance_apply: "call2 distance a b = length_vec (call2 sub a b)"
  by (simp add: distance_def curryRight_def)

lemma angle_apply:
  "call2 angle a b =
     (if a = (Fin 0, Fin 0) then Inl AssertionError
      else if b = (Fin 0, Fin 0) then Inl AssertionError
      else Inr (Math_acos (call2 dot a b / (length_vec a * length_vec b))))"
  by (simp add: angle_def curryRight_def)

lemma rotate_apply:
  "call2 rotate_vec a t =
     (fst a * Math_cos t - snd a * Math_sin t, fst a * Math_sin t + snd a * Math_cos t)"
  by (simp add: rotate_vec_def curryRight_def Let_def)

lemma project_apply:
  "call2 project a b =
     (if b = (Fin 0, Fin 0) then Inl AssertionError
      else Inr (call2 scale b (call2 dot a b / call2 dot b b)))"
  by (simp add: project_def curryRight_def)

lemma partial_apply: "call_rest (call1 f x) y = call2 f y x"
  by (cases f) simp

lemma length_apply: "length_vec a = Math_sqrt (fst a * fst a + snd a * snd a)"
  by (simp add: length_vec_def dot_apply)

lemma curried_call_shapes_tested:
  "call2 add (Fin 1, Fin 2) (Fin 3, Fin 4) = (Fin 4, Fin 6)"
  "call_rest (call1 add (Fin 1, Fin 2)) (Fin 3, Fin 4) = (Fin 4, Fin 6)"
  "call2 scale (Fin 1, Fin 2) (Fin 3) = (Fin 3, Fin 6)"
  "call_rest (call1 scale (Fin 3)) (Fin 1, Fin 2) = (Fin 3, Fin 6)"
  "call_rest (call1 dot (Fin 1, Fin 2)) (Fin 3, Fin 4) = Fin 11"
  "call2 project (Fin 1, Fin 0) (Fin 1, Fin 1) = Inr (Fin (1 / 2), Fin (1 / 2))"
  "call_rest (call1 project (Fin 1, Fin 1)) (Fin 1, Fin 0) = Inr (Fin (1 / 2), Fin (1 / 2))"
  "call_rest (call1 project (Fin 1, Fin (- 1))) (Fin 1, Fin 0) = Inr (Fin (1 / 2), Fin (- (1 / 2)))"
  "call2 project (Fin 1, Fin 0) (Fin 0, Fin 0) = Inl AssertionError"
  "unit (Fin 0, Fin 0) = Inl AssertionError"
  "call2 angle (Fin 0, Fin 0) (Fin 1, Fin 0) = Inl AssertionError"
  "call2 angle (Fin 1, Fin 0) (Fin 0, Fin 0) = Inl AssertionError"
  by (simp_all add: partial_apply add_apply scale_apply dot_apply project_apply unit_def
      angle_apply)

lemma round64_underflow: "\<bar>r\<bar> \<le> 2 powi (- 1075) \<Longrightarrow> round64 r = Fin 0"
  by (simp add: round64_zero_iff)

lemma round64_overflow_neg: "r \<le> - (2 powi 1024 - 2 powi 970) \<Longrightarrow> round64 r = NInf"
  using round64_overflow [of "- r"] round64_minus [of "- r"] by simp

lemma tiny_representable: "round64 (2 powi (- 600)) = Fin (2 powi (- 600))"
  by (rule round64_pow2) simp_all


lemma round64_nearest_normal:
  assumes "2 ^ 52 < n" and "n < 2 ^ 53" and "- 1074 \<le> e" and "e \<le> 971"
    and "(of_int n - 1 / 2) * 2 powi e < r" and "r < (of_int n + 1 / 2) * 2 powi e"
  shows "round64 r = Fin (of_int n * 2 powi e)"
proof (rule round64_nearest)
  have p: "(0::real) < 2 powi e" by simp
  have n1: "(of_int (2 ^ 52) :: real) \<le> of_int n - 1 / 2"
  proof -
    have "2 ^ 52 + 1 \<le> n" using assms(1) by linarith
    then have "(of_int (2 ^ 52 + 1) :: real) \<le> of_int n" by (simp only: of_int_le_iff)
    then show ?thesis by simp
  qed
  have n2: "of_int n + 1 / 2 \<le> (of_int (2 ^ 53) :: real)"
  proof -
    have "n + 1 \<le> 2 ^ 53" using assms(2) by linarith
    then have "(of_int (n + 1) :: real) \<le> of_int (2 ^ 53)" by (simp only: of_int_le_iff)
    then show ?thesis by simp
  qed
  have "2 powi (e + 52) = (of_int (2 ^ 52) :: real) * 2 powi e"
    by (simp add: power_int_add)
  also have "\<dots> \<le> (of_int n - 1 / 2) * 2 powi e"
    using n1 by (intro mult_right_mono) simp_all
  finally show "2 powi (e + 52) \<le> r" using assms(5) by linarith
  have "(of_int n + 1 / 2) * 2 powi e \<le> (of_int (2 ^ 53) :: real) * 2 powi e"
    using n2 by (intro mult_right_mono) simp_all
  also have "\<dots> = 2 powi (e + 53)"
    by (simp add: power_int_add)
  finally show "r < 2 powi (e + 53)" using assms(6) by linarith
  show "- 1074 \<le> e" by fact
  show "of_int n - 1 / 2 < r / 2 powi e"
    using assms(5) p by (simp add: pos_less_divide_eq)
  show "r / 2 powi e < of_int n + 1 / 2"
    using assms(6) p by (simp add: pos_divide_less_eq)
  have "(of_int n :: real) * 2 powi e \<le> of_int (2 ^ 53 - 1) * 2 powi 971"
    using assms(1,2,4) by (intro mult_mono power_int_increasing) simp_all
  also have "\<dots> < 2 powi 1024" by simp
  finally show "of_int n * 2 powi e < (2 powi 1024 :: real)" .
qed

lemma round64_sqrt_nearest:
  assumes "2 ^ 52 < n" and "n < 2 ^ 53" and "- 1074 \<le> e" and "e \<le> 971"
    and "((of_int n - 1 / 2) * 2 powi e)\<^sup>2 < x" and "x < ((of_int n + 1 / 2) * 2 powi e)\<^sup>2"
  shows "round64 (sqrt x) = Fin (of_int n * 2 powi e)"
proof (rule round64_nearest_normal [OF assms(1-4)])
  show "(of_int n - 1 / 2) * 2 powi e < sqrt x"
    using assms(5) by (rule real_less_rsqrt)
  have "(0::real) \<le> (of_int n + 1 / 2) * 2 powi e"
    using assms(1) by simp
  then show "sqrt x < (of_int n + 1 / 2) * 2 powi e"
    using assms(6) by (intro real_less_lsqrt) simp_all
qed

lemma sqrt_26: "round64 (sqrt 26) = Fin (5740985595342838 * 2 powi (- 50))"
  using round64_sqrt_nearest [of 5740985595342838 "- 50" 26] by (simp add: power2_eq_square)

lemma sqrt_26_squared:
  "round64 (5740985595342838 * 2 powi (- 50) * (5740985595342838 * 2 powi (- 50)))
     = Fin (7318349394477055 * 2 powi (- 48))"
  using round64_nearest_normal [of 7318349394477055 "- 48"
      "5740985595342838 * 2 powi (- 50) * (5740985595342838 * 2 powi (- 50))"]
  by simp

lemma quotient_above_one:
  "round64 (26 / (7318349394477055 * 2 powi (- 48))) = Fin (4503599627370497 * 2 powi (- 52))"
  using round64_nearest_normal [of 4503599627370497 "- 52"
      "26 / (7318349394477055 * 2 powi (- 48))"]
  by simp


lemma sin_lower:
  fixes x :: real
  assumes "0 < x"
  shows "x - x ^ 3 / 6 \<le> sin x"
proof -
  obtain t where t: "sin x = (\<Sum>m<3. sin_coeff m * x ^ m) + (sin (t + 1 / 2 * real 3 * pi) / fact 3) * x ^ 3"
    using Maclaurin_sin_expansion3 [of 3 x] assms by auto
  have s: "(\<Sum>m<3. sin_coeff m * x ^ m) = x"
    by (simp add: eval_nat_numeral sin_coeff_def)
  have f: "fact 3 = (6::real)"
    by (simp add: eval_nat_numeral)
  have "- 1 \<le> sin (t + 1 / 2 * real 3 * pi)"
    by simp
  then have "- 1 / 6 * x ^ 3 \<le> sin (t + 1 / 2 * real 3 * pi) / 6 * x ^ 3"
    using assms by (intro mult_right_mono divide_right_mono) simp_all
  then show ?thesis
    unfolding t s f by simp
qed

lemma cos_lower: "1 - x\<^sup>2 / 2 \<le> cos (x::real)"
proof -
  have "cos x = 1 - 2 * (sin (x / 2))\<^sup>2"
    using cos_double_sin [of "x / 2"] by simp
  moreover have "(sin (x / 2))\<^sup>2 \<le> (x / 2)\<^sup>2"
    using abs_sin_x_le_abs_x [of "x / 2"] by (simp only: abs_le_square_iff [symmetric])
  ultimately show ?thesis
    by (simp add: power2_eq_square)
qed

lemma double_antisym:
  fixes a b :: double
  assumes "a \<le> b" and "b \<le> a"
  shows "a = b"
  using assms by (cases a; cases b) simp_all

lemma Math_cos_tiny: "Math_cos (Fin (2 powi (- 30))) = Fin 1"
proof -
  have lo: "round64 (1 - (2 powi (- 30))\<^sup>2 / 2) = Fin 1"
    using round64_nearest [of "- 53" "1 - (2 powi (- 30))\<^sup>2 / 2" "2 ^ 53"]
    by (simp add: power2_eq_square)
  have "round64 (1 - (2 powi (- 30))\<^sup>2 / 2) \<le> round64 (cos (2 powi (- 30)))"
    by (intro round64_mono_nonneg cos_lower) (simp add: power2_eq_square)
  moreover have "round64 (cos (2 powi (- 30))) \<le> round64 1"
  proof (intro round64_mono_nonneg)
    have "0 \<le> 1 - ((2::real) powi (- 30))\<^sup>2 / 2" by (simp add: power2_eq_square)
    also have "\<dots> \<le> cos (2 powi (- 30))" by (rule cos_lower)
    finally show "0 \<le> cos ((2::real) powi (- 30))" .
  qed simp
  ultimately have "round64 (cos (2 powi (- 30))) = Fin 1"
    unfolding lo round64_1 by (intro double_antisym)
  then show ?thesis
    by (simp add: Math_cos_def)
qed

lemma Math_sin_tiny: "Math_sin (Fin (2 powi (- 30))) = Fin (2 powi (- 30))"
proof -
  define t :: real where "t = 2 powi (- 30)"
  have tpos: "0 < t" by (simp add: t_def)
  have up: "round64 t = Fin t"
    unfolding t_def by (rule round64_pow2) simp_all
  have lo: "round64 (t - t ^ 3 / 6) = Fin t"
    unfolding t_def using round64_nearest [of "- 83" "2 powi (- 30) - (2 powi (- 30)) ^ 3 / 6" "2 ^ 53"]
    by (simp add: power3_eq_cube)
  have nonneg: "0 \<le> t - t ^ 3 / 6"
    by (simp add: t_def power3_eq_cube)
  have "round64 (t - t ^ 3 / 6) \<le> round64 (sin t)"
    using nonneg by (intro round64_mono_nonneg sin_lower tpos)
  moreover have "round64 (sin t) \<le> round64 t"
  proof (intro round64_mono_nonneg)
    show "0 \<le> sin t" using nonneg sin_lower [OF tpos] by linarith
    show "sin t \<le> t" using tpos by (intro sin_x_le_x) simp
  qed
  ultimately have "round64 (sin t) = Fin t"
    unfolding lo up by (intro double_antisym)
  then show ?thesis
    by (simp add: Math_sin_def t_def)
qed


lemma Math_cos_finite: "\<exists>c. Math_cos (Fin r) = Fin c"
proof -
  have "(1::real) < 2 powi 1024 - 2 powi 970"
    by simp
  then have "\<bar>cos r\<bar> < 2 powi 1024 - 2 powi 970"
    using abs_cos_le_one [of r] by linarith
  from round64_finite [OF this] obtain v where "round64 (cos r) = Fin v"
    by blast
  then show ?thesis
    by (simp add: Math_cos_def)
qed

lemma Math_sin_finite: "\<exists>s. Math_sin (Fin r) = Fin s"
proof -
  have "(1::real) < 2 powi 1024 - 2 powi 970"
    by simp
  then have "\<bar>sin r\<bar> < 2 powi 1024 - 2 powi 970"
    using abs_sin_le_one [of r] by linarith
  from round64_finite [OF this] obtain v where "round64 (sin r) = Fin v"
    by blast
  then show ?thesis
    by (simp add: Math_sin_def)
qed


lemma round64_square_cases:
  assumes "0 \<le> r"
  shows "(r \<le> 2 powi (- 1075) \<and> round64 r = Fin 0)
       \<or> (2 powi (- 1075) < r \<and> (round64 r = PInf \<or> (\<exists>v. round64 r = Fin v \<and> 2 powi (- 1074) \<le> v)))"
proof (cases "r \<le> 2 powi (- 1075)")
  case True
  then show ?thesis
    using assms by (simp add: round64_underflow)
next
  case False
  then have "2 powi (- 1075) < r" by simp
  then show ?thesis
    using round64_pos_cases [of r] by simp
qed

lemma plus_PInf_cases:
  assumes "a = PInf \<or> (\<exists>v. a = Fin v \<and> 0 \<le> v)" and "b = PInf \<or> (\<exists>v. b = Fin v \<and> 0 \<le> v)"
    and "a = PInf \<or> b = PInf"
  shows "a + b = PInf"
  using assms by auto

lemma dot_self_cases:
  "(x * x \<le> 2 powi (- 1075) \<and> y * y \<le> 2 powi (- 1075) \<and> call2 dot (Fin x, Fin y) (Fin x, Fin y) = Fin 0)
   \<or> (\<not> (x * x \<le> 2 powi (- 1075) \<and> y * y \<le> 2 powi (- 1075))
       \<and> (call2 dot (Fin x, Fin y) (Fin x, Fin y) = PInf
          \<or> (\<exists>v. call2 dot (Fin x, Fin y) (Fin x, Fin y) = Fin v \<and> 2 powi (- 1074) \<le> v)))"
proof -
  have p: "(0::real) < 2 powi (- 1074)" by simp
  have lt: "(2::real) powi (- 1075) < 2 powi (- 1074)"
    by (intro power_int_strict_increasing) simp_all
  obtain a where a: "round64 (x * x) = a" by simp
  obtain b where b: "round64 (y * y) = b" by simp
  have d: "call2 dot (Fin x, Fin y) (Fin x, Fin y) = a + b"
    by (simp add: dot_apply a b)
  have ca: "(x * x \<le> 2 powi (- 1075) \<and> a = Fin 0)
       \<or> (2 powi (- 1075) < x * x \<and> (a = PInf \<or> (\<exists>v. a = Fin v \<and> 2 powi (- 1074) \<le> v)))"
    using round64_square_cases [of "x * x"] a by simp
  have cb: "(y * y \<le> 2 powi (- 1075) \<and> b = Fin 0)
       \<or> (2 powi (- 1075) < y * y \<and> (b = PInf \<or> (\<exists>v. b = Fin v \<and> 2 powi (- 1074) \<le> v)))"
    using round64_square_cases [of "y * y"] b by simp
  have sum: "Fin v + Fin w = PInf \<or> (\<exists>z. Fin v + Fin w = Fin z \<and> 2 powi (- 1074) \<le> z)"
    if "0 \<le> v" "0 \<le> w" "2 powi (- 1074) \<le> v + w" for v w :: real
    using round64_pos_cases [of "v + w"] that lt by simp
  have big: "a + b = PInf \<or> (\<exists>z. a + b = Fin z \<and> 2 powi (- 1074) \<le> z)"
    if A: "a = PInf \<or> (\<exists>v. a = Fin v \<and> 2 powi (- 1074) \<le> v)"
      and B: "b = Fin 0 \<or> b = PInf \<or> (\<exists>v. b = Fin v \<and> 2 powi (- 1074) \<le> v)" for a b :: double
  proof -
    have B': "b = PInf \<or> (\<exists>w. b = Fin w \<and> 0 \<le> w)"
      using B p by (elim disjE exE conjE) auto
    consider "a = PInf \<or> b = PInf" | v w where "a = Fin v" "b = Fin w" "2 powi (- 1074) \<le> v" "0 \<le> w"
      using A B' by blast
    then show ?thesis
    proof cases
      case 1
      then show ?thesis using A B' by (elim disjE exE conjE) auto
    next
      case 2
      then show ?thesis using sum [of v w] p by simp
    qed
  qed
  have comm: "b + a = a + b" for a b :: double
    by (cases a; cases b) (simp_all add: add.commute)
  show ?thesis
  proof (cases "x * x \<le> 2 powi (- 1075)")
    case xs: True
    show ?thesis
    proof (cases "y * y \<le> 2 powi (- 1075)")
      case True
      then show ?thesis using xs ca cb unfolding d by auto
    next
      case False
      then have "b = PInf \<or> (\<exists>v. b = Fin v \<and> 2 powi (- 1074) \<le> v)" "a = Fin 0"
        using ca cb xs by auto
      then show ?thesis
        using big [of b a] False unfolding d comm [of a b] by simp
    qed
  next
    case False
    then have "a = PInf \<or> (\<exists>v. a = Fin v \<and> 2 powi (- 1074) \<le> v)"
      "b = Fin 0 \<or> b = PInf \<or> (\<exists>v. b = Fin v \<and> 2 powi (- 1074) \<le> v)"
      using ca cb by auto
    then show ?thesis
      using big [of a b] False unfolding d by simp
  qed
qed

lemma Math_sqrt_cases:
  assumes "a = PInf \<or> (\<exists>v. a = Fin v \<and> 2 powi (- 1074) \<le> v)"
  shows "Math_sqrt a = PInf \<or> (\<exists>w. Math_sqrt a = Fin w \<and> 2 powi (- 1074) \<le> w)"
  using assms
proof (elim disjE exE conjE)
  assume "a = PInf"
  then show ?thesis by (simp add: Math_sqrt_def)
next
  fix v assume a: "a = Fin v" and v: "2 powi (- 1074) \<le> v"
  have vpos: "0 < v"
    using v zero_less_power_int [of "2::real" "- 1074"] by linarith
  have "((2::real) powi (- 1075))\<^sup>2 < 2 powi (- 1074)"
    by (simp add: power2_eq_square)
  with v have "(2 powi (- 1075))\<^sup>2 < v" by linarith
  then have "2 powi (- 1075) < sqrt v"
    by (rule real_less_rsqrt)
  from round64_pos_cases [OF this] show ?thesis
    using vpos by (simp add: a Math_sqrt_def)
qed

lemma length_cases:
  "(x * x \<le> 2 powi (- 1075) \<and> y * y \<le> 2 powi (- 1075) \<and> length_vec (Fin x, Fin y) = Fin 0)
   \<or> (\<not> (x * x \<le> 2 powi (- 1075) \<and> y * y \<le> 2 powi (- 1075))
       \<and> (length_vec (Fin x, Fin y) = PInf
          \<or> (\<exists>w. length_vec (Fin x, Fin y) = Fin w \<and> 2 powi (- 1074) \<le> w)))"
  using dot_self_cases [of x y] Math_sqrt_cases [of "call2 dot (Fin x, Fin y) (Fin x, Fin y)"]
  by (auto simp add: length_vec_def Math_sqrt_def)

lemma Math_acos_range:
  "Math_acos q = NaN \<or> (Fin 0 \<le> Math_acos q \<and> Math_acos q \<le> round64 pi)"
proof (cases q)
  case (Fin x)
  show ?thesis
  proof (cases "- 1 \<le> x \<and> x \<le> 1")
    case True
    then have b: "0 \<le> arccos x" "arccos x \<le> pi"
      using arccos_bounded [of x] by simp_all
    have "round64 0 \<le> round64 (arccos x)"
      using b by (intro round64_mono_nonneg) simp_all
    moreover have "round64 (arccos x) \<le> round64 pi"
      using b by (intro round64_mono_nonneg) simp_all
    ultimately show ?thesis
      using True by (simp add: Fin Math_acos_def)
  next
    case False
    then show ?thesis by (auto simp add: Fin Math_acos_def)
  qed
qed (simp_all add: Math_acos_def)

lemma round64_not_NaN: "round64 r \<noteq> NaN"
  by (auto simp add: round64_def overflow_def)

lemma Math_acos_NaN_iff: "Math_acos q = NaN \<longleftrightarrow> \<not> (Fin (- 1) \<le> q \<and> q \<le> Fin 1)"
  by (cases q) (simp_all add: Math_acos_def round64_not_NaN)


section \<open>When an operation throws\<close>

lemma unit_throws_iff: "unit a = Inl e \<longleftrightarrow> a = (Fin 0, Fin 0)"
  by (cases e) (simp add: unit_def)

lemma uminus_eq_zero_iff: "- d = Fin 0 \<longleftrightarrow> d = Fin 0"
  by (cases d) simp_all

lemma normal_throws_iff: "normal a = Inl e \<longleftrightarrow> a = (Fin 0, Fin 0)"
  by (cases a) (auto simp add: normal_def unit_throws_iff uminus_eq_zero_iff)

lemma angle_throws_iff:
  "call2 angle a b = Inl e \<longleftrightarrow> a = (Fin 0, Fin 0) \<or> b = (Fin 0, Fin 0)"
  by (cases e) (simp add: angle_apply)

lemma project_throws_iff: "call2 project a b = Inl e \<longleftrightarrow> b = (Fin 0, Fin 0)"
  by (cases e) (simp add: project_apply)

lemma may_throw_Thrown: "may_throw r = Thrown e \<longleftrightarrow> r = Inl e"
  by (cases r) simp_all

section \<open>Partial application\<close>

text \<open>
  C1, as stated: partially applying \<open>sub\<close> with \<open>a\<close> and then supplying \<open>b\<close>
  computes \<open>sub(a, b) = a - b\<close>. It fails at \<open>a = (1, 2)\<close>, \<open>b = (3, 4)\<close>:
  \<^verbatim>\<open>sub([1, 2])([3, 4])\<close> is \<open>(2, 2)\<close>, as the test suite expects, while
  \<^verbatim>\<open>sub([1, 2], [3, 4])\<close> is \<open>(-2, -2)\<close>.
\<close>

theorem sub_partial_counterexample:
  "call_rest (call1 sub (Fin 1, Fin 2)) (Fin 3, Fin 4) = (Fin 2, Fin 2)
   \<and> call2 sub (Fin 1, Fin 2) (Fin 3, Fin 4) = (Fin (- 2), Fin (- 2))
   \<and> call_rest (call1 sub (Fin 1, Fin 2)) (Fin 3, Fin 4) \<noteq> call2 sub (Fin 1, Fin 2) (Fin 3, Fin 4)"
  by (simp add: partial_apply sub_apply minus_double_def)

text \<open>
  C1, amended: the full application \<open>sub(a, b)\<close> is the componentwise difference
  \<open>a - b\<close>; partially applying \<open>sub\<close> with \<open>a\<close> and then supplying \<open>b\<close> computes
  \<open>sub(b, a) = b - a\<close>, because the single argument is bound as the last parameter.
  The same order holds for every curried binary operation (add, sub, scale, dot,
  distance, angle, rotate, project): \<open>f(x)(y) = f(y, x)\<close>.
\<close>

theorem single_argument_is_bound_last:
  "call2 sub a b = (fst a - fst b, snd a - snd b)
   \<and> call_rest (call1 sub a) b = (fst b - fst a, snd b - snd a)
   \<and> call_rest (call1 add a) b = call2 add b a
   \<and> call_rest (call1 sub a) b = call2 sub b a
   \<and> call_rest (call1 scale s) a = call2 scale a s
   \<and> call_rest (call1 dot a) b = call2 dot b a
   \<and> call_rest (call1 distance a) b = call2 distance b a
   \<and> call_rest (call1 angle a) b = call2 angle b a
   \<and> call_rest (call1 rotate_vec t) a = call2 rotate_vec a t
   \<and> call_rest (call1 project a) b = call2 project b a"
  by (simp add: partial_apply sub_apply)

section \<open>Polar coordinates\<close>

text \<open>
  C2: for a non-zero cartesian vector \<open>v\<close>, \<open>toPolar(v)\<close> is a pair of scalars, the
  angle of \<open>v\<close> against the positive x-axis and the length of \<open>v\<close>. The code does not
  do this. At \<open>v = (1, 0)\<close> the claim asks for \<open>(0, 1)\<close>, since
  \<open>angle((1, 0), (1, 0)) = 0\<close>; the first element of the array the code returns is no
  number but the wrapper of \<open>angle\<close> holding \<open>v\<close> and awaiting the other vector.
\<close>

theorem toPolar_first_element_is_a_function:
  "toPolar (Fin 1, Fin 0) = [Function (call1 angle (Fin 1, Fin 0)), Number (Fin 1)]
   \<and> toPolar (Fin 1, Fin 0) \<noteq> [Number (Fin 0), Number (Fin 1)]
   \<and> call2 angle (Fin 1, Fin 0) (Fin 1, Fin 0) = Inr (Fin 0)"
  by (simp add: toPolar_def length_apply angle_apply dot_apply Math_sqrt_def Math_acos_def)

section \<open>Errors\<close>

text \<open>
  C3, as stated: exactly \<open>unit\<close>, \<open>angle\<close> and \<open>project\<close> can fail and every other
  operation returns a value for every input. It fails for \<open>normal\<close>, which hands the
  rotated vector to \<open>unit\<close>: \<open>normal((0, 0))\<close> throws.
\<close>

theorem normal_zero_vector_counterexample:
  "normal (Fin 0, Fin 0) = Inl AssertionError
   \<and> outcome_of (Normal (Fin 0, Fin 0)) = Thrown AssertionError"
  by (simp add: normal_def unit_def)

text \<open>
  C3, amended: exactly four operations can fail, \<open>unit\<close>, \<open>normal\<close>, \<open>angle\<close> and
  \<open>project\<close>, each with the single error kind, thrown by the call itself. A full
  application throws if and only if it is \<open>unit(v)\<close> or \<open>normal(v)\<close> with
  \<open>v = (0, 0)\<close>, \<open>angle(a, b)\<close> with \<open>a = (0, 0)\<close> or \<open>b = (0, 0)\<close>, or
  \<open>project(a, b)\<close> with \<open>b = (0, 0)\<close>; every other full application of an exported
  operation returns a value.
\<close>

theorem throws_exactly_on_zero_divisor:
  "outcome_of c = Thrown e \<longleftrightarrow>
     e = AssertionError
     \<and> (c = Unit (Fin 0, Fin 0) \<or> c = Normal (Fin 0, Fin 0)
        \<or> (\<exists>a b. c = Angle a b \<and> (a = (Fin 0, Fin 0) \<or> b = (Fin 0, Fin 0)))
        \<or> (\<exists>a. c = Project a (Fin 0, Fin 0)))"
  by (cases c; cases e)
    (simp_all add: returned_def may_throw_Thrown unit_throws_iff normal_throws_iff
      angle_throws_iff project_throws_iff)

section \<open>Metrics\<close>

text \<open>
  C4, as stated: \<open>length(v) = 0\<close> if and only if \<open>v = (0, 0)\<close>. It fails at the
  binary64 vector \<open>v = (2 powi (- 600), 0)\<close>, which is not the zero vector: the square of
  its first component underflows to zero, so \<open>dot(v, v)\<close> and \<open>length(v)\<close> are zero.
\<close>

theorem length_underflow_counterexample:
  "round64 (2 powi (- 600)) = Fin (2 powi (- 600))
   \<and> (Fin (2 powi (- 600)), Fin 0) \<noteq> (Fin 0, Fin 0)
   \<and> length_vec (Fin (2 powi (- 600)), Fin 0) = Fin 0"
  using tiny_representable
  by (simp add: length_apply Math_sqrt_def round64_underflow)

text \<open>
  C4, amended: for every vector \<open>v\<close>, \<open>length(v)\<close> is \<open>Math.sqrt(dot(v, v))\<close>
  evaluated in binary64 arithmetic, and \<open>magnitude\<close> and \<open>norm\<close> are the same function
  as \<open>length\<close>. For finite components \<open>length(v) >= 0\<close> (it may be \<open>+Infinity\<close>);
  \<open>length((0, 0)) = 0\<close>; and \<open>length(v) = 0\<close> if and only if the squares of both
  components round to zero, that is, both are at most \<open>2 powi (- 1075)\<close>, which holds
  of the zero vector and of other vectors as well.
\<close>

theorem length_is_rounded_euclidean_norm:
  "length_vec v = Math_sqrt (call2 dot v v)
   \<and> magnitude = length_vec
   \<and> norm_vec = length_vec
   \<and> length_vec (Fin 0, Fin 0) = Fin 0
   \<and> Fin 0 \<le> length_vec (Fin x, Fin y)
   \<and> (length_vec (Fin x, Fin y) = Fin 0
        \<longleftrightarrow> x * x \<le> 2 powi (- 1075) \<and> y * y \<le> 2 powi (- 1075))"
proof -
  have p: "(0::real) < 2 powi (- 1074)" by simp
  have "Fin 0 \<le> length_vec (Fin x, Fin y)"
    using length_cases [of x y] p by auto
  moreover have "length_vec (Fin x, Fin y) = Fin 0
      \<longleftrightarrow> x * x \<le> 2 powi (- 1075) \<and> y * y \<le> 2 powi (- 1075)"
    using length_cases [of x y] p by auto
  moreover have "length_vec (Fin 0, Fin 0) = Fin 0"
    by (simp add: length_apply Math_sqrt_def)
  ultimately show ?thesis
    by (simp add: magnitude_def norm_vec_def) (simp add: length_vec_def)
qed

text \<open>
  C5, as stated: for non-zero \<open>a\<close> and \<open>b\<close> the result of \<open>angle(a, b)\<close> lies in
  \<open>[0, pi]\<close>. It fails at \<open>a = b = (1, 5)\<close>: \<open>dot\<close> is 26, the length is the
  rounded root of 26, the product of the two lengths rounds to a value just below 26,
  the quotient rounds to the double just above 1, and \<^verbatim>\<open>Math.acos\<close> of it is NaN.
\<close>

theorem angle_drift_counterexample:
  "call2 angle (Fin 1, Fin 5) (Fin 1, Fin 5) = Inr NaN"
proof -
  have d: "call2 dot (Fin 1, Fin 5) (Fin 1, Fin 5) = Fin 26"
    by (simp add: dot_apply)
  have l: "length_vec (Fin 1, Fin 5) = Fin (5740985595342838 * 2 powi (- 50))"
    by (simp only: length_vec_def d Math_sqrt_def double.case sqrt_26) simp
  have q: "Fin 26 / (Fin (5740985595342838 * 2 powi (- 50)) * Fin (5740985595342838 * 2 powi (- 50)))
      = Fin (4503599627370497 * 2 powi (- 52))"
    by (simp only: times_double.simps sqrt_26_squared divide_double.simps quotient_above_one) simp
  show ?thesis
    by (simp only: angle_apply d l q) (simp add: Math_acos_def)
qed

text \<open>
  C5, amended: for non-zero vectors \<open>a\<close> and \<open>b\<close>, \<open>angle(a, b)\<close> returns
  \<open>Math.acos(dot(a, b) / (length(a) * length(b)))\<close> evaluated in binary64 arithmetic. The
  result is NaN exactly when the computed quotient is not within \<open>[-1, 1]\<close> (it is NaN,
  infinite, or has drifted past 1 by rounding); otherwise it is an unsigned angle
  between 0 and the double nearest to \<open>pi\<close>.
\<close>

theorem angle_is_rounded_arccos:
  assumes "a \<noteq> (Fin 0, Fin 0)" and "b \<noteq> (Fin 0, Fin 0)"
  shows "call2 angle a b = Inr (Math_acos (call2 dot a b / (length_vec a * length_vec b)))
         \<and> (case call2 angle a b of
               Inr t \<Rightarrow> t = NaN \<or> (Fin 0 \<le> t \<and> t \<le> round64 pi)
             | Inl e \<Rightarrow> False)
         \<and> (call2 angle a b = Inr NaN
              \<longleftrightarrow> \<not> (Fin (- 1) \<le> call2 dot a b / (length_vec a * length_vec b)
                     \<and> call2 dot a b / (length_vec a * length_vec b) \<le> Fin 1))"
  using assms Math_acos_range [of "call2 dot a b / (length_vec a * length_vec b)"]
  by (simp add: angle_apply Math_acos_NaN_iff)

theorem angle_is_rounded_arccos_witness:
  "(Fin 1, Fin 0) \<noteq> (Fin 0, Fin 0)
   \<and> call2 angle (Fin 1, Fin 0) (Fin 1, Fin 0) = Inr (Fin 0)
   \<and> Fin 0 \<le> Fin 0 \<and> Fin 0 \<le> round64 pi"
  using angle_is_rounded_arccos [of "(Fin 1, Fin 0)" "(Fin 1, Fin 0)"]
  by (simp add: angle_apply dot_apply length_apply Math_sqrt_def Math_acos_def)




section \<open>Transforms\<close>









section \<open>The single-argument call shape of scale and rotate\<close>

text \<open>
  C10: for every vector \<open>v\<close>, scalar \<open>s\<close> and angle \<open>t\<close>, a single-argument call of
  a curried operation binds the argument as the second parameter:
  \<open>scale(s)(v) = scale(v, s)\<close> and \<open>rotate(t)(v) = rotate(v, t)\<close>.
\<close>

theorem single_argument_binds_second_parameter:
  "call_rest (call1 scale s) v = call2 scale v s
   \<and> call2 scale v s = (fst v * s, snd v * s)
   \<and> call_rest (call1 rotate_vec t) v = call2 rotate_vec v t
   \<and> call2 rotate_vec v t =
       (fst v * Math_cos t - snd v * Math_sin t, fst v * Math_sin t + snd v * Math_cos t)"
  by (simp add: partial_apply scale_apply rotate_apply)

end
